theory Spec2Isabelle
  imports Complex_Main
begin

section \<open>Connections and recipient filters\<close>

text \<open>
  The event router of the server keeps, for every user, the set of live client
  connections and fans events out to them. A connection is a JavaScript object; the
  router stores and compares connections by reference. The model therefore separates
  the \<^emph>\<open>reference\<close> of a connection object (\<open>conn_ref\<close>) from its \<^emph>\<open>fields\<close>
  (\<open>ClientConnection\<close>); a heap \<open>H\<close> maps the one to the other. The router never
  writes a field of a connection, so the heap is a parameter that does not change.

  A socket is an object of the transport library, known here only by its identity.
  A JavaScript \<open>number\<close> is only stored and forwarded by this module, never computed
  on; it is modelled as a real number.
\<close>

type_synonym Socket = nat
type_synonym conn_ref = nat
type_synonym number = real

datatype ClientConnection =
    SessionScopedConnection (socket: Socket) (userId: string) (sessionId: string)
  | UserScopedConnection (socket: Socket) (userId: string)
  | MachineScopedConnection (socket: Socket) (userId: string) (machineId: string)

datatype ConnectionType = session_scoped | user_scoped | machine_scoped

fun connectionType :: "ClientConnection \<Rightarrow> ConnectionType" where
  "connectionType (SessionScopedConnection _ _ _) = session_scoped"
| "connectionType (UserScopedConnection _ _) = user_scoped"
| "connectionType (MachineScopedConnection _ _ _) = machine_scoped"

text \<open>
  The declared type \<open>RecipientFilter\<close> has three variants. Types are erased at run
  time, and the \<open>switch\<close> of \<open>shouldSendToConnection\<close> has a \<open>default\<close> branch for
  a filter whose \<open>type\<close> is none of the three: \<open>UnrecognizedFilter\<close> stands for such
  a value, so that the branch is part of the model.
\<close>

datatype RecipientFilter =
    AllInterestedInSession string
  | UserScopedOnly
  | AllUserAuthenticatedConnections
  | UnrecognizedFilter string

fun shouldSendToConnection :: "ClientConnection \<Rightarrow> RecipientFilter \<Rightarrow> bool" where
  "shouldSendToConnection connection (AllInterestedInSession fsid) =
     (if connectionType connection = session_scoped then
        (if sessionId connection \<noteq> fsid then False else True)
      else if connectionType connection = machine_scoped then False
      else True)"
| "shouldSendToConnection connection UserScopedOnly =
     (connectionType connection = user_scoped)"
| "shouldSendToConnection connection AllUserAuthenticatedConnections = True"
| "shouldSendToConnection connection (UnrecognizedFilter _) = False"

section \<open>Payloads\<close>

text \<open>
  A JavaScript value, as far as the payloads need it. An object literal is the list of
  its properties in the order written; \<open>content: any\<close> is an arbitrary value.
\<close>

datatype jsval =
    JUndefined
  | JNull
  | JBool bool
  | JNum number
  | JStr string
  | JObj "(string \<times> jsval) list"

text \<open>
  \<open>UpdatePayload\<close> is \<open>{id, seq, body: {t, [key: string]: any}, createdAt}\<close>. The
  fields are prefixed with \<open>p_\<close> because \<open>id\<close> is a constant of HOL and the entity
  records below have fields of the same names. The body is an open object, so it is kept
  as its property list. \<open>EphemeralPayload\<close> is \<open>{type, [key: string]: any}\<close>.
\<close>

record UpdatePayload =
  p_id :: string
  p_seq :: number
  body :: "(string \<times> jsval) list"
  p_createdAt :: number

type_synonym EphemeralPayload = "(string \<times> jsval) list"

datatype payload = UpdateP UpdatePayload | EphemeralP EphemeralPayload

text \<open>
  A \<open>Date\<close> holds a time value, the milliseconds since the epoch, which
  \<open>getTime()\<close> returns.
\<close>

datatype Date = Date (getTime: int)

text \<open>The argument of \<open>buildNewSessionUpdate\<close> (fields prefixed with \<open>s_\<close>).\<close>

record session =
  s_id :: string
  s_seq :: number
  s_metadata :: string
  s_metadataVersion :: number
  s_agentState :: "string option"
  s_agentStateVersion :: number
  s_active :: bool
  s_lastActiveAt :: Date
  s_createdAt :: Date
  s_updatedAt :: Date

text \<open>The argument of \<open>buildNewMessageUpdate\<close> (fields prefixed with \<open>m_\<close>).\<close>

record message =
  m_id :: string
  m_seq :: number
  m_content :: jsval
  m_localId :: "string option"
  m_createdAt :: Date
  m_updatedAt :: Date

definition string_or_null :: "string option \<Rightarrow> jsval" where
  "string_or_null v = (case v of None \<Rightarrow> JNull | Some s \<Rightarrow> JStr s)"

text \<open>
  The builders read the wall clock once (\<open>Date.now()\<close>); the reading is the first
  argument \<open>now\<close>.
\<close>

definition buildNewSessionUpdate :: "int \<Rightarrow> session \<Rightarrow> number \<Rightarrow> string \<Rightarrow> UpdatePayload" where
  "buildNewSessionUpdate now session updateSeq updateId =
     \<lparr> p_id = updateId,
       p_seq = updateSeq,
       body =
         [ (''t'', JStr ''new-session''),
           (''id'', JStr (s_id session)),
           (''seq'', JNum (s_seq session)),
           (''metadata'', JStr (s_metadata session)),
           (''metadataVersion'', JNum (s_metadataVersion session)),
           (''agentState'', string_or_null (s_agentState session)),
           (''agentStateVersion'', JNum (s_agentStateVersion session)),
           (''active'', JBool (s_active session)),
           (''activeAt'', JNum (of_int (getTime (s_lastActiveAt session)))),
           (''createdAt'', JNum (of_int (getTime (s_createdAt session)))),
           (''updatedAt'', JNum (of_int (getTime (s_updatedAt session)))) ],
       p_createdAt = of_int now \<rparr>"

definition buildNewMessageUpdate :: "int \<Rightarrow> message \<Rightarrow> string \<Rightarrow> number \<Rightarrow> string \<Rightarrow> UpdatePayload" where
  "buildNewMessageUpdate now message sid updateSeq updateId =
     \<lparr> p_id = updateId,
       p_seq = updateSeq,
       body =
         [ (''t'', JStr ''new-message''),
           (''sid'', JStr sid),
           (''message'', JObj
             [ (''id'', JStr (m_id message)),
               (''seq'', JNum (m_seq message)),
               (''content'', m_content message),
               (''localId'', string_or_null (m_localId message)),
               (''createdAt'', JNum (of_int (getTime (m_createdAt message)))),
               (''updatedAt'', JNum (of_int (getTime (m_updatedAt message)))) ]) ],
       p_createdAt = of_int now \<rparr>"

text \<open>
  The type \<open>UpdateEvent\<close> declares, for each event type, the fields of the event
  besides its discriminator \<open>type\<close>; for \<open>new-message\<close> also the fields of the nested
  \<open>message\<close>.
\<close>

definition UpdateEvent_fields :: "string \<Rightarrow> string list" where
  "UpdateEvent_fields ty =
     (if ty = ''new-message'' then [''sessionId'', ''message'']
      else if ty = ''new-session'' then
        [''sessionId'', ''seq'', ''metadata'', ''metadataVersion'', ''agentState'',
         ''agentStateVersion'', ''active'', ''activeAt'', ''createdAt'', ''updatedAt'']
      else if ty = ''update-session'' then [''sessionId'', ''metadata'', ''agentState'']
      else if ty = ''update-account'' then [''userId'', ''settings'']
      else if ty = ''update-machine'' then
        [''machineId'', ''metadata'', ''daemonState'', ''activeAt'']
      else [])"

definition UpdateEvent_message_fields :: "string list" where
  "UpdateEvent_message_fields =
     [''id'', ''seq'', ''content'', ''localId'', ''createdAt'', ''updatedAt'']"

text \<open>
  Reading a property of a value (\<open>v.k\<close>, which is \<open>undefined\<close> when \<open>v\<close> has no
  property \<open>k\<close>) and the names of the properties of an object.
\<close>

fun js_get :: "jsval \<Rightarrow> string \<Rightarrow> jsval" where
  "js_get (JObj ps) k = (case map_of ps k of None \<Rightarrow> JUndefined | Some v \<Rightarrow> v)"
| "js_get _ k = JUndefined"

fun js_keys :: "jsval \<Rightarrow> string list" where
  "js_keys (JObj ps) = map fst ps"
| "js_keys _ = []"

section \<open>The connection registry\<close>

text \<open>
  \<open>userConnections\<close> is a \<open>Map<string, Set<ClientConnection>>\<close>. A \<open>Set\<close> is an
  object: the map holds a reference to it, and so does the local variable
  \<open>connections\<close> of a running \<open>emit\<close>. The model keeps the \<open>Set\<close> objects in a store
  (\<open>set_store\<close>, indexed by \<open>set_ref\<close>; \<open>allocated\<close> counts the objects created by
  \<open>new Set()\<close>).

  The data of a \<open>Set\<close> is, as in the language definition, the list of its entries in
  insertion order, where \<open>delete\<close> overwrites an entry with the mark \<open>empty\<close>
  (\<open>None\<close>): \<open>add\<close> appends a value that is not in the list, \<open>size\<close> counts the
  entries that are not empty, and an iterator walks the list by index, skipping empty
  entries, reading the list anew at each step.
\<close>

type_synonym set_ref = nat
type_synonym SetData = "conn_ref option list"

definition set_add :: "conn_ref \<Rightarrow> SetData \<Rightarrow> SetData" where
  "set_add c d = (if Some c \<in> set d then d else d @ [Some c])"

definition set_delete :: "conn_ref \<Rightarrow> SetData \<Rightarrow> SetData" where
  "set_delete c d = map (\<lambda>e. if e = Some c then None else e) d"

fun set_values :: "SetData \<Rightarrow> conn_ref list" where
  "set_values [] = []"
| "set_values (None # d) = set_values d"
| "set_values (Some c # d) = c # set_values d"

definition set_size :: "SetData \<Rightarrow> nat" where
  "set_size d = length (set_values d)"

text \<open>
  The state: the router's map and the store of its sets, and the two effects of the
  router on the outside, the writes \<open>socket.emit(eventName, payload)\<close> in the order
  issued (each with the connection it was issued for) and the calls of \<open>log\<close>
  (module, level, message).
\<close>

type_synonym wire_write = "conn_ref \<times> Socket \<times> string \<times> payload"

record world =
  userConnections :: "string \<rightharpoonup> set_ref"
  set_store :: "set_ref \<Rightarrow> SetData"
  allocated :: nat
  sent :: "wire_write list"
  logged :: "(string \<times> string \<times> string) list"

definition new_router :: world where
  "new_router =
     \<lparr> userConnections = Map.empty, set_store = (\<lambda>_. []), allocated = 0,
       sent = [], logged = [] \<rparr>"

definition addConnection :: "string \<Rightarrow> conn_ref \<Rightarrow> world \<Rightarrow> world" where
  "addConnection uid connection w =
     (let w1 =
        (if userConnections w uid = None then
           w\<lparr> userConnections := (userConnections w)(uid \<mapsto> allocated w),
              set_store := (set_store w)(allocated w := []),
              allocated := Suc (allocated w) \<rparr>
         else w)
      in case userConnections w1 uid of
           None \<Rightarrow> w1
         | Some r \<Rightarrow> w1\<lparr> set_store := (set_store w1)(r := set_add connection (set_store w1 r)) \<rparr>)"

definition removeConnection :: "string \<Rightarrow> conn_ref \<Rightarrow> world \<Rightarrow> world" where
  "removeConnection uid connection w =
     (case userConnections w uid of
        None \<Rightarrow> w
      | Some r \<Rightarrow>
          (let w1 = w\<lparr> set_store := (set_store w)(r := set_delete connection (set_store w r)) \<rparr>
           in if set_size (set_store w1 r) = 0
              then w1\<lparr> userConnections := (userConnections w1)(uid := None) \<rparr>
              else w1))"

definition getConnections :: "string \<Rightarrow> world \<Rightarrow> set_ref option" where
  "getConnections uid w = userConnections w uid"


section \<open>Sequences of registry calls\<close>

datatype registry_call = AddConnection string conn_ref | RemoveConnection string conn_ref

fun call :: "registry_call \<Rightarrow> world \<Rightarrow> world" where
  "call (AddConnection uid c) w = addConnection uid c w"
| "call (RemoveConnection uid c) w = removeConnection uid c w"

fun calls :: "registry_call list \<Rightarrow> world \<Rightarrow> world" where
  "calls [] w = w"
| "calls (x # xs) w = calls xs (call x w)"

fun call_user :: "registry_call \<Rightarrow> string" where
  "call_user (AddConnection uid c) = uid"
| "call_user (RemoveConnection uid c) = uid"

section \<open>Emission\<close>

text \<open>
  \<open>connection.socket.emit(eventName, payload)\<close> is a call into the transport
  library. It is recorded in \<open>sent\<close>. The library may also run, inside the call,
  handlers that call back into the router's registry (a disconnect handler calls
  \<open>removeConnection\<close>, a connect handler \<open>addConnection\<close>): the parameter \<open>T\<close>
  gives, for each socket, the registry calls that a write to it performs, in order,
  before it returns. \<open>quiet\<close> is the transport whose writes perform none. The
  calls back into the router that are modelled are these two, the only ones that change
  the registry.
\<close>

type_synonym transport = "Socket \<Rightarrow> registry_call list"

definition quiet :: transport where
  "quiet = (\<lambda>_. [])"

definition socket_emit :: "transport \<Rightarrow> conn_ref \<Rightarrow> Socket \<Rightarrow> string \<Rightarrow> payload \<Rightarrow> world \<Rightarrow> world" where
  "socket_emit T c sock eventName p w =
     calls (T sock) (w\<lparr> sent := sent w @ [(c, sock, eventName, p)] \<rparr>)"

text \<open>
  The loop \<open>for (const connection of connections)\<close> on the set \<open>r\<close>, from the entry
  at index \<open>i\<close> on. A write can add a connection to the very set that the loop
  iterates, and the loop then visits the new entry, so the loop need not end. The first
  argument bounds the number of entries that the loop examines: the result is
  \<open>Returned w\<close> when the loop ends within the bound and \<open>Running w\<close>, with the state
  reached, when entries are left at the bound.
\<close>

datatype outcome = Returned world | Running world

fun state_of :: "outcome \<Rightarrow> world" where
  "state_of (Returned w) = w"
| "state_of (Running w) = w"

fun returned :: "outcome \<Rightarrow> bool" where
  "returned (Returned w) = True"
| "returned (Running w) = False"

fun emit_loop ::
  "nat \<Rightarrow> transport \<Rightarrow> (conn_ref \<Rightarrow> ClientConnection) \<Rightarrow> string \<Rightarrow> payload \<Rightarrow> RecipientFilter
     \<Rightarrow> conn_ref option \<Rightarrow> set_ref \<Rightarrow> nat \<Rightarrow> world \<Rightarrow> outcome" where
  "emit_loop 0 T H eventName p recipientFilter skipSenderConnection r i w =
     (if i < length (set_store w r) then Running w else Returned w)"
| "emit_loop (Suc n) T H eventName p recipientFilter skipSenderConnection r i w =
     (if i < length (set_store w r) then
        (case set_store w r ! i of
           None \<Rightarrow> emit_loop n T H eventName p recipientFilter skipSenderConnection r (Suc i) w
         | Some connection \<Rightarrow>
             if skipSenderConnection = Some connection then
               emit_loop n T H eventName p recipientFilter skipSenderConnection r (Suc i) w
             else if \<not> shouldSendToConnection (H connection) recipientFilter then
               emit_loop n T H eventName p recipientFilter skipSenderConnection r (Suc i) w
             else
               emit_loop n T H eventName p recipientFilter skipSenderConnection r (Suc i)
                 (socket_emit T connection (socket (H connection)) eventName p w))
      else Returned w)"

definition emit ::
  "nat \<Rightarrow> transport \<Rightarrow> (conn_ref \<Rightarrow> ClientConnection) \<Rightarrow> string \<Rightarrow> string \<Rightarrow> payload
     \<Rightarrow> RecipientFilter \<Rightarrow> conn_ref option \<Rightarrow> world \<Rightarrow> outcome" where
  "emit n T H uid eventName p recipientFilter skipSenderConnection w =
     (case userConnections w uid of
        None \<Rightarrow>
          Returned (w\<lparr> logged := logged w @
                [(''websocket'', ''warn'', ''No connections found for user '' @ uid)] \<rparr>)
      | Some connections \<Rightarrow>
          emit_loop n T H eventName p recipientFilter skipSenderConnection connections 0 w)"

definition default_filter :: "RecipientFilter option \<Rightarrow> RecipientFilter" where
  "default_filter recipientFilter =
     (case recipientFilter of None \<Rightarrow> AllUserAuthenticatedConnections | Some f \<Rightarrow> f)"

definition emitUpdate ::
  "nat \<Rightarrow> transport \<Rightarrow> (conn_ref \<Rightarrow> ClientConnection) \<Rightarrow> string \<Rightarrow> UpdatePayload
     \<Rightarrow> RecipientFilter option \<Rightarrow> conn_ref option \<Rightarrow> world \<Rightarrow> outcome" where
  "emitUpdate n T H uid p recipientFilter skipSenderConnection w =
     emit n T H uid ''update'' (UpdateP p) (default_filter recipientFilter) skipSenderConnection w"

definition emitEphemeral ::
  "nat \<Rightarrow> transport \<Rightarrow> (conn_ref \<Rightarrow> ClientConnection) \<Rightarrow> string \<Rightarrow> EphemeralPayload
     \<Rightarrow> RecipientFilter option \<Rightarrow> conn_ref option \<Rightarrow> world \<Rightarrow> outcome" where
  "emitEphemeral n T H uid p recipientFilter skipSenderConnection w =
     emit n T H uid ''ephemeral'' (EphemeralP p) (default_filter recipientFilter) skipSenderConnection w"

text \<open>
  The connections that an emission wrote to: the connections of the writes that \<open>w'\<close>
  has beyond those of \<open>w\<close>, in order.
\<close>

definition delivered :: "world \<Rightarrow> world \<Rightarrow> conn_ref list" where
  "delivered w w' = map fst (drop (length (sent w)) (sent w'))"

definition deliveries_to :: "conn_ref \<Rightarrow> world \<Rightarrow> world \<Rightarrow> nat" where
  "deliveries_to c w w' = length (filter (\<lambda>x. x = c) (delivered w w'))"

text \<open>
  The number of entries, emptied or not, of the set of a user: a bound that lets the loop
  end when no write adds an entry to that set.
\<close>

definition entries :: "string \<Rightarrow> world \<Rightarrow> nat" where
  "entries uid w = (case userConnections w uid of None \<Rightarrow> 0 | Some r \<Rightarrow> length (set_store w r))"

text \<open>
  Conditions on what the writes do to the registry: no write calls the registry for
  user \<open>U\<close>; no write adds a connection under \<open>U\<close>.
\<close>

definition undisturbed :: "string \<Rightarrow> transport \<Rightarrow> bool" where
  "undisturbed U T = (\<forall>sock. \<forall>x \<in> set (T sock). call_user x \<noteq> U)"

definition adds_none :: "string \<Rightarrow> transport \<Rightarrow> bool" where
  "adds_none U T = (\<forall>sock c. AddConnection U c \<notin> set (T sock))"

text \<open>
  The emission as the specification describes it, for comparison: the loop runs over a
  copy of the values of the set, taken when the emission begins.
\<close>

fun emit_snapshot_loop ::
  "transport \<Rightarrow> (conn_ref \<Rightarrow> ClientConnection) \<Rightarrow> string \<Rightarrow> payload \<Rightarrow> RecipientFilter
     \<Rightarrow> conn_ref option \<Rightarrow> conn_ref list \<Rightarrow> world \<Rightarrow> world" where
  "emit_snapshot_loop T H eventName p recipientFilter skipSenderConnection [] w = w"
| "emit_snapshot_loop T H eventName p recipientFilter skipSenderConnection (connection # cs) w =
     (if skipSenderConnection = Some connection then
        emit_snapshot_loop T H eventName p recipientFilter skipSenderConnection cs w
      else if \<not> shouldSendToConnection (H connection) recipientFilter then
        emit_snapshot_loop T H eventName p recipientFilter skipSenderConnection cs w
      else
        emit_snapshot_loop T H eventName p recipientFilter skipSenderConnection cs
          (socket_emit T connection (socket (H connection)) eventName p w))"

definition emit_snapshot ::
  "transport \<Rightarrow> (conn_ref \<Rightarrow> ClientConnection) \<Rightarrow> string \<Rightarrow> string \<Rightarrow> payload \<Rightarrow> RecipientFilter
     \<Rightarrow> conn_ref option \<Rightarrow> world \<Rightarrow> world" where
  "emit_snapshot T H uid eventName p recipientFilter skipSenderConnection w =
     (case userConnections w uid of
        None \<Rightarrow>
          w\<lparr> logged := logged w @
                [(''websocket'', ''warn'', ''No connections found for user '' @ uid)] \<rparr>
      | Some connections \<Rightarrow>
          emit_snapshot_loop T H eventName p recipientFilter skipSenderConnection
            (set_values (set_store w connections)) w)"

text \<open>
  What the loop of the code visits when writes remove connections of \<open>U\<close> and add
  none: of the connections \<open>cs\<close> ahead of it, those that are eligible (not the skipped
  sender, accepted by the filter) and that no earlier write of the loop has removed.
\<close>

function survivors ::
  "transport \<Rightarrow> (conn_ref \<Rightarrow> ClientConnection) \<Rightarrow> string \<Rightarrow> RecipientFilter \<Rightarrow> conn_ref option
     \<Rightarrow> conn_ref list \<Rightarrow> conn_ref list" where
  "survivors T H U f skip [] = []"
| "survivors T H U f skip (c # cs) =
     (if skip = Some c \<or> \<not> shouldSendToConnection (H c) f then survivors T H U f skip cs
      else c # survivors T H U f skip
             (filter (\<lambda>x. RemoveConnection U x \<notin> set (T (socket (H c)))) cs))"
  by pat_completeness auto
termination
  by (relation "measure (\<lambda>(T, H, U, f, skip, cs). length cs)") (auto simp: less_Suc_eq_le)

section \<open>Properties of registry states\<close>

text \<open>A \<open>Set\<close> holds no value twice.\<close>

definition sets_distinct :: "world \<Rightarrow> bool" where
  "sets_distinct w = (\<forall>r. distinct (set_values (set_store w r)))"

text \<open>
  What the registry calls maintain: every key of the map refers to an allocated set that
  is not empty, and no two keys refer to the same set.
\<close>

definition registry_ok :: "world \<Rightarrow> bool" where
  "registry_ok w =
     ((\<forall>uid r. userConnections w uid = Some r \<longrightarrow> r < allocated w \<and> 0 < set_size (set_store w r))
      \<and> (\<forall>u u' r. userConnections w u = Some r \<and> userConnections w u' = Some r \<longrightarrow> u = u'))"

text \<open>
  The registry part of the state, and the fact that a connection is not in the set of a
  user (or the user has no set).
\<close>

definition registry_of :: "world \<Rightarrow> (string \<rightharpoonup> set_ref) \<times> (set_ref \<Rightarrow> SetData) \<times> nat" where
  "registry_of w = (userConnections w, set_store w, allocated w)"

definition not_registered :: "string \<Rightarrow> conn_ref \<Rightarrow> world \<Rightarrow> bool" where
  "not_registered U C w = (\<forall>r. userConnections w U = Some r \<longrightarrow> C \<notin> set (set_values (set_store w r)))"

text \<open>
  The set \<open>r\<close> that a running loop for user \<open>U\<close> iterates: an allocated set that no
  key but \<open>U\<close> refers to (the key \<open>U\<close> itself is removed when the set becomes empty).
\<close>

definition loop_set :: "string \<Rightarrow> set_ref \<Rightarrow> world \<Rightarrow> bool" where
  "loop_set U r w =
     (registry_ok w \<and> r < allocated w \<and> (\<forall>u. userConnections w u = Some r \<longrightarrow> u = U))"

text \<open>
  While the loop for \<open>U\<close> runs on the set \<open>r\<close> and no write adds a connection under
  \<open>U\<close>, either \<open>U\<close> still refers to \<open>r\<close> or \<open>r\<close> has become empty (and the key
  \<open>U\<close> was removed). \<open>dropped U ds d\<close> is what the calls \<open>ds\<close> then leave of the
  data \<open>d\<close> of that set: the removals for \<open>U\<close> empty their entries.
\<close>

definition loop_live :: "string \<Rightarrow> set_ref \<Rightarrow> world \<Rightarrow> bool" where
  "loop_live U r w = (loop_set U r w \<and> (userConnections w U = Some r \<or> set_values (set_store w r) = []))"

fun dropped :: "string \<Rightarrow> registry_call list \<Rightarrow> SetData \<Rightarrow> SetData" where
  "dropped U [] d = d"
| "dropped U (RemoveConnection u c # ds) d = dropped U ds (if u = U then set_delete c d else d)"
| "dropped U (AddConnection u c # ds) d = dropped U ds d"

section \<open>A concrete registry\<close>

text \<open>
  User \<open>U\<close> with three connections: \<open>0\<close>, session-scoped on session \<open>s1\<close>; \<open>1\<close>,
  session-scoped on session \<open>s2\<close>; \<open>2\<close>, user-scoped. Their sockets are \<open>10\<close>,
  \<open>11\<close> and \<open>12\<close>. In \<open>example_transport\<close>, a write to socket \<open>10\<close> runs the
  disconnect handler of connection \<open>1\<close>; in \<open>connecting_transport\<close> it registers a
  further user-scoped connection \<open>3\<close> of \<open>U\<close>; in \<open>bystander_transport\<close> it
  registers and removes connections of another user \<open>V\<close>; in \<open>leaving_transport\<close>
  it runs the disconnect handler of connection \<open>0\<close> itself.
\<close>

definition example_heap :: "conn_ref \<Rightarrow> ClientConnection" where
  "example_heap c =
     (if c = 0 then SessionScopedConnection 10 ''U'' ''s1''
      else if c = 1 then SessionScopedConnection 11 ''U'' ''s2''
      else UserScopedConnection (10 + c) ''U'')"

definition example_world :: world where
  "example_world =
     calls [AddConnection ''U'' 0, AddConnection ''U'' 1, AddConnection ''U'' 2] new_router"

definition example_transport :: transport where
  "example_transport sock = (if sock = 10 then [RemoveConnection ''U'' 1] else [])"

definition connecting_transport :: transport where
  "connecting_transport sock = (if sock = 10 then [AddConnection ''U'' 3] else [])"

definition bystander_transport :: transport where
  "bystander_transport sock =
     (if sock = 10 then [AddConnection ''V'' 7, AddConnection ''V'' 8, RemoveConnection ''V'' 7]
      else [])"

definition leaving_transport :: transport where
  "leaving_transport sock = (if sock = 10 then [RemoveConnection ''U'' 0] else [])"

definition example_message :: message where
  "example_message =
     \<lparr> m_id = ''m1'', m_seq = 3, m_content = JObj [(''c'', JStr ''hello''), (''t'', JStr ''encrypted'')],
       m_localId = None, m_createdAt = Date 1700000000000, m_updatedAt = Date 1700000000500 \<rparr>"

definition example_update :: UpdatePayload where
  "example_update = buildNewMessageUpdate 1700000001000 example_message ''s1'' 7 ''upd-1''"

section \<open>The recipient filter\<close>

text \<open>
  C1. For every connection and every declared recipient filter,
  \<open>shouldSendToConnection\<close> returns: under \<open>all-interested-in-session{sid}\<close>, true for
  a session-scoped connection iff its session id is \<open>sid\<close>, true for every user-scoped
  connection and false for every machine-scoped one; under \<open>user-scoped-only\<close>, true
  iff the connection is user-scoped; under \<open>all-user-authenticated-connections\<close>, true
  for every connection.
\<close>

theorem shouldSendToConnection_table:
  "shouldSendToConnection (SessionScopedConnection sock u s) (AllInterestedInSession sid) = (s = sid)
   \<and> shouldSendToConnection (UserScopedConnection sock u) (AllInterestedInSession sid) = True
   \<and> shouldSendToConnection (MachineScopedConnection sock u m) (AllInterestedInSession sid) = False
   \<and> shouldSendToConnection c UserScopedOnly = (connectionType c = user_scoped)
   \<and> shouldSendToConnection (SessionScopedConnection sock u s) UserScopedOnly = False
   \<and> shouldSendToConnection (UserScopedConnection sock u) UserScopedOnly = True
   \<and> shouldSendToConnection (MachineScopedConnection sock u m) UserScopedOnly = False
   \<and> shouldSendToConnection c AllUserAuthenticatedConnections = True"
  by simp

section \<open>Auxiliary facts\<close>

lemma set_values_append: "set_values (d @ d') = set_values d @ set_values d'"
  by (induction d rule: set_values.induct) simp_all

lemma set_values_mem: "c \<in> set (set_values d) \<longleftrightarrow> Some c \<in> set d"
  by (induction d rule: set_values.induct) auto

lemma set_values_add:
  "set_values (set_add c d) = (if c \<in> set (set_values d) then set_values d else set_values d @ [c])"
  by (simp add: set_add_def set_values_append set_values_mem)

lemma set_values_delete: "set_values (set_delete c d) = removeAll c (set_values d)"
  by (induction d rule: set_values.induct) (auto simp: set_delete_def)

lemma registry_ok_new: "registry_ok new_router"
  by (simp add: registry_ok_def new_router_def)

lemma registry_ok_add: "registry_ok w \<Longrightarrow> registry_ok (addConnection uid c w)"
  unfolding registry_ok_def addConnection_def Let_def
  by (auto simp: set_size_def set_values_add less_Suc_eq split: option.splits if_splits)

lemma registry_ok_remove: "registry_ok w \<Longrightarrow> registry_ok (removeConnection uid c w)"
  unfolding registry_ok_def removeConnection_def Let_def
  by (auto simp: set_size_def split: option.splits if_splits)

lemma registry_ok_calls: "registry_ok w \<Longrightarrow> registry_ok (calls cs w)"
proof (induction cs arbitrary: w)
  case Nil
  then show ?case by simp
next
  case (Cons x cs)
  then show ?case by (cases x) (simp_all add: registry_ok_add registry_ok_remove)
qed

lemma sets_distinct_add: "sets_distinct w \<Longrightarrow> sets_distinct (addConnection uid c w)"
  unfolding sets_distinct_def addConnection_def Let_def
  by (auto simp: set_values_add split: option.splits)

lemma sets_distinct_remove: "sets_distinct w \<Longrightarrow> sets_distinct (removeConnection uid c w)"
  unfolding sets_distinct_def removeConnection_def Let_def
  by (auto simp: set_values_delete distinct_removeAll split: option.splits)

lemma sets_distinct_calls: "sets_distinct w \<Longrightarrow> sets_distinct (calls cs w)"
proof (induction cs arbitrary: w)
  case Nil
  then show ?case by simp
next
  case (Cons x cs)
  then show ?case by (cases x) (simp_all add: sets_distinct_add sets_distinct_remove)
qed


lemma count_distinct:
  "distinct xs \<Longrightarrow> length (filter (\<lambda>x. x = c) (filter Q xs)) = (if c \<in> set xs \<and> Q c then 1 else 0)"
  by (induction xs) auto



lemma not_registered_remove: "not_registered U C (removeConnection U C w)"
  by (auto simp: not_registered_def removeConnection_def Let_def set_values_delete split: option.splits if_splits)

lemma not_registered_call:
  "registry_ok w \<Longrightarrow> not_registered U C w \<Longrightarrow> x \<noteq> AddConnection U C \<Longrightarrow> not_registered U C (call x w)"
proof (cases x)
  case (AddConnection u c)
  assume "registry_ok w" "not_registered U C w" "x \<noteq> AddConnection U C"
  with AddConnection show ?thesis
    unfolding not_registered_def registry_ok_def
    by (auto simp: addConnection_def Let_def set_values_add split: option.splits if_splits)
next
  case (RemoveConnection u c)
  assume "registry_ok w" "not_registered U C w"
  with RemoveConnection show ?thesis
    unfolding not_registered_def registry_ok_def
    by (auto simp: removeConnection_def Let_def set_values_delete split: option.splits if_splits)
qed

lemma not_registered_calls:
  "registry_ok w \<Longrightarrow> not_registered U C w \<Longrightarrow> AddConnection U C \<notin> set cs \<Longrightarrow>
   not_registered U C (calls cs w)"
proof (induction cs arbitrary: w)
  case Nil
  then show ?case by simp
next
  case (Cons x cs)
  have "registry_ok (call x w)" using Cons.prems(1) by (cases x) (simp_all add: registry_ok_add registry_ok_remove)
  moreover have "not_registered U C (call x w)" using Cons.prems by (intro not_registered_call) auto
  ultimately show ?case using Cons by simp
qed

lemma removeConnection_last:
  "userConnections w U = Some r \<Longrightarrow> set_values (set_store w r) = [C] \<Longrightarrow>
   userConnections (removeConnection U C w) U = None"
  by (simp add: removeConnection_def Let_def set_size_def set_values_delete)

lemma removeConnection_sent: "sent (removeConnection uid c w) = sent w"
  by (simp add: removeConnection_def Let_def split: option.split)

lemma removeConnection_registry_of:
  assumes "registry_of w = registry_of w'"
  shows "registry_of (removeConnection uid c w) = registry_of (removeConnection uid c w')"
proof -
  from assms have eq: "userConnections w' = userConnections w" "set_store w' = set_store w"
    "allocated w' = allocated w"
    by (simp_all add: registry_of_def)
  show ?thesis
  proof (cases "userConnections w uid")
    case None
    then show ?thesis by (simp add: removeConnection_def registry_of_def eq)
  next
    case (Some r)
    then show ?thesis by (simp add: removeConnection_def registry_of_def eq Let_def)
  qed
qed


lemma addConnection_sent: "sent (addConnection uid c w) = sent w"
  by (simp add: addConnection_def Let_def split: option.split)

lemma call_sent: "sent (call x w) = sent w"
  by (cases x) (simp_all add: addConnection_sent removeConnection_sent)

lemma calls_sent: "sent (calls ds w) = sent w"
  by (induction ds arbitrary: w) (simp_all add: call_sent)

lemma socket_emit_sent: "sent (socket_emit T c s ev p w) = sent w @ [(c, s, ev, p)]"
  by (simp add: socket_emit_def calls_sent)

lemma calls_append: "calls (ds @ ds') w = calls ds' (calls ds w)"
  by (induction ds arbitrary: w) simp_all

lemma addConnection_registry_of:
  assumes "registry_of w = registry_of w'"
  shows "registry_of (addConnection uid c w) = registry_of (addConnection uid c w')"
proof -
  from assms have eq: "userConnections w' = userConnections w" "set_store w' = set_store w"
    "allocated w' = allocated w"
    by (simp_all add: registry_of_def)
  show ?thesis
    by (cases "userConnections w uid") (simp_all add: addConnection_def registry_of_def eq Let_def)
qed

lemma call_registry_of:
  "registry_of w = registry_of w' \<Longrightarrow> registry_of (call x w) = registry_of (call x w')"
  by (cases x) (auto intro: addConnection_registry_of removeConnection_registry_of)

lemma calls_registry_of:
  "registry_of w = registry_of w' \<Longrightarrow> registry_of (calls ds w) = registry_of (calls ds w')"
proof (induction ds arbitrary: w w')
  case Nil
  then show ?case by simp
next
  case (Cons x ds)
  have "registry_of (call x w) = registry_of (call x w')"
    using Cons.prems by (rule call_registry_of)
  then show ?case unfolding calls.simps by (rule Cons.IH)
qed

lemma socket_emit_registry_of:
  "registry_of (socket_emit T c s ev p w) = registry_of (calls (T s) w)"
  unfolding socket_emit_def by (rule calls_registry_of) (simp add: registry_of_def)

lemma registry_ok_call: "registry_ok w \<Longrightarrow> registry_ok (call x w)"
  by (cases x) (simp_all add: registry_ok_add registry_ok_remove)

lemma addConnection_allocated: "allocated w \<le> allocated (addConnection uid c w)"
  by (simp add: addConnection_def Let_def split: option.split)

lemma removeConnection_allocated: "allocated (removeConnection uid c w) = allocated w"
  by (simp add: removeConnection_def Let_def split: option.split)

lemma addConnection_old_key:
  assumes "userConnections (addConnection uid c w) u = Some r" and "r < allocated w"
  shows "userConnections w u = Some r"
proof (cases "userConnections w uid")
  case None
  with assms show ?thesis
    by (cases "u = uid") (simp_all add: addConnection_def Let_def)
next
  case (Some r')
  with assms show ?thesis by (simp add: addConnection_def Let_def)
qed

lemma removeConnection_old_key:
  assumes "userConnections (removeConnection uid c w) u = Some r"
  shows "userConnections w u = Some r"
proof (cases "userConnections w uid")
  case None
  with assms show ?thesis by (simp add: removeConnection_def)
next
  case (Some r')
  with assms show ?thesis
    by (cases "u = uid") (simp_all add: removeConnection_def Let_def split: if_splits)
qed

lemma loop_set_call: 
  assumes "loop_set U r w"
  shows "loop_set U r (call x w)"
proof -
  from assms have ok: "registry_ok w" and lt: "r < allocated w"
    and own: "\<And>u. userConnections w u = Some r \<Longrightarrow> u = U"
    by (simp_all add: loop_set_def)
  have "registry_ok (call x w)" using ok by (rule registry_ok_call)
  moreover have "r < allocated (call x w)"
    using lt addConnection_allocated[of w] removeConnection_allocated[of _ _ w]
    by (cases x) (simp_all add: less_le_trans)
  moreover have "u = U" if "userConnections (call x w) u = Some r" for u
  proof -
    have "userConnections w u = Some r"
      using that lt by (cases x) (auto dest: addConnection_old_key removeConnection_old_key)
    then show ?thesis by (rule own)
  qed
  ultimately show ?thesis by (simp add: loop_set_def)
qed

lemma loop_set_calls: "loop_set U r w \<Longrightarrow> loop_set U r (calls ds w)"
  by (induction ds arbitrary: w) (simp_all add: loop_set_call)

lemma loop_set_start: "registry_ok w \<Longrightarrow> userConnections w U = Some r \<Longrightarrow> loop_set U r w"
  by (auto simp: loop_set_def registry_ok_def)

lemma emit_loop_done:
  "\<not> i < length (set_store w r) \<Longrightarrow> emit_loop n T H ev p f skip r i w = Returned w"
  by (cases n) simp_all

lemma emit_loop_empty_entry:
  "i < length (set_store w r) \<Longrightarrow> set_store w r ! i = None \<Longrightarrow>
   emit_loop (Suc n) T H ev p f skip r i w = emit_loop n T H ev p f skip r (Suc i) w"
  by simp

lemma emit_loop_rejected:
  "i < length (set_store w r) \<Longrightarrow> set_store w r ! i = Some c \<Longrightarrow>
   skip = Some c \<or> \<not> shouldSendToConnection (H c) f \<Longrightarrow>
   emit_loop (Suc n) T H ev p f skip r i w = emit_loop n T H ev p f skip r (Suc i) w"
  by auto

lemma emit_loop_accepted:
  "i < length (set_store w r) \<Longrightarrow> set_store w r ! i = Some c \<Longrightarrow>
   skip \<noteq> Some c \<Longrightarrow> shouldSendToConnection (H c) f \<Longrightarrow>
   emit_loop (Suc n) T H ev p f skip r i w =
     emit_loop n T H ev p f skip r (Suc i) (socket_emit T c (socket (H c)) ev p w)"
  by auto

declare emit_loop.simps [simp del]

lemma emit_loop_trace:
  "\<exists>cs. sent (state_of (emit_loop n T H ev p f skip r i w)) =
           sent w @ map (\<lambda>c. (c, socket (H c), ev, p)) cs
      \<and> registry_of (state_of (emit_loop n T H ev p f skip r i w)) =
           registry_of (calls (concat (map (\<lambda>c. T (socket (H c))) cs)) w)"
proof (induction n arbitrary: i w)
  case 0
  have "state_of (emit_loop 0 T H ev p f skip r i w) = w" by (simp add: emit_loop.simps)
  then have "sent (state_of (emit_loop 0 T H ev p f skip r i w)) =
           sent w @ map (\<lambda>c. (c, socket (H c), ev, p)) []
      \<and> registry_of (state_of (emit_loop 0 T H ev p f skip r i w)) =
           registry_of (calls (concat (map (\<lambda>c. T (socket (H c))) [])) w)" by simp
  then show ?case by (rule exI)
next
  case (Suc n)
  let ?mk = "\<lambda>c. (c, socket (H c), ev, p)"
  let ?tc = "\<lambda>c. T (socket (H c))"
  show ?case
  proof (cases "i < length (set_store w r)")
    case False
    then have "state_of (emit_loop (Suc n) T H ev p f skip r i w) = w"
      by (simp add: emit_loop_done)
    then have "sent (state_of (emit_loop (Suc n) T H ev p f skip r i w)) = sent w @ map ?mk []
      \<and> registry_of (state_of (emit_loop (Suc n) T H ev p f skip r i w)) =
           registry_of (calls (concat (map ?tc [])) w)" by simp
    then show ?thesis by (rule exI)
  next
    case lt: True
    show ?thesis
    proof (cases "set_store w r ! i")
      case None
      with lt Suc.IH[of "Suc i" w] show ?thesis by (simp add: emit_loop_empty_entry)
    next
      case (Some c)
      show ?thesis
      proof (cases "skip = Some c \<or> \<not> shouldSendToConnection (H c) f")
        case True
        have "emit_loop (Suc n) T H ev p f skip r i w = emit_loop n T H ev p f skip r (Suc i) w"
          using lt Some True by (rule emit_loop_rejected)
        with Suc.IH[of "Suc i" w] show ?thesis by simp
      next
        case False
        let ?w = "socket_emit T c (socket (H c)) ev p w"
        have step: "emit_loop (Suc n) T H ev p f skip r i w = emit_loop n T H ev p f skip r (Suc i) ?w"
          using lt Some False by (simp add: emit_loop_accepted)
        from Suc.IH[of "Suc i" ?w] obtain cs where
          cs: "sent (state_of (emit_loop n T H ev p f skip r (Suc i) ?w)) = sent ?w @ map ?mk cs"
            "registry_of (state_of (emit_loop n T H ev p f skip r (Suc i) ?w)) =
               registry_of (calls (concat (map ?tc cs)) ?w)"
          by blast
        have "registry_of (calls (concat (map ?tc cs)) ?w) =
                registry_of (calls (concat (map ?tc cs)) (calls (T (socket (H c))) w))"
          by (rule calls_registry_of) (rule socket_emit_registry_of)
        also have "\<dots> = registry_of (calls (concat (map ?tc (c # cs))) w)"
          by (simp add: calls_append)
        finally have "sent (state_of (emit_loop (Suc n) T H ev p f skip r i w)) = sent w @ map ?mk (c # cs)
          \<and> registry_of (state_of (emit_loop (Suc n) T H ev p f skip r i w)) =
               registry_of (calls (concat (map ?tc (c # cs))) w)"
          using step cs by (simp add: socket_emit_sent)
        then show ?thesis by (rule exI)
      qed
    qed
  qed
qed

lemma delivered_map:
  "sent w' = sent w @ map (\<lambda>c. (c, g c)) cs \<Longrightarrow> delivered w w' = cs"
  by (simp add: delivered_def comp_def)

lemma emit_loop_registry:
  "registry_of (state_of (emit_loop n T H ev p f skip r i w)) =
     registry_of (calls (concat (map (\<lambda>c. T (socket (H c)))
        (delivered w (state_of (emit_loop n T H ev p f skip r i w))))) w)"
proof -
  obtain cs where cs: "sent (state_of (emit_loop n T H ev p f skip r i w)) =
           sent w @ map (\<lambda>c. (c, socket (H c), ev, p)) cs"
      "registry_of (state_of (emit_loop n T H ev p f skip r i w)) =
           registry_of (calls (concat (map (\<lambda>c. T (socket (H c))) cs)) w)"
    using emit_loop_trace by blast
  from cs(1) have "delivered w (state_of (emit_loop n T H ev p f skip r i w)) = cs"
    by (rule delivered_map)
  with cs(2) show ?thesis by simp
qed

lemma emit_absent:
  "userConnections w U = None \<Longrightarrow>
   emit n T H U ev p f skip w =
     Returned (w\<lparr> logged := logged w @ [(''websocket'', ''warn'', ''No connections found for user '' @ U)] \<rparr>)"
  by (simp add: emit_def)

lemma emit_registry:
  "registry_of (state_of (emit n T H U ev p f skip w)) =
     registry_of (calls (concat (map (\<lambda>c. T (socket (H c)))
        (delivered w (state_of (emit n T H U ev p f skip w))))) w)"
proof (cases "userConnections w U")
  case None
  then show ?thesis by (simp add: emit_absent delivered_def registry_of_def)
next
  case (Some r)
  then show ?thesis by (simp add: emit_def emit_loop_registry)
qed

lemma call_keeps_absent:
  assumes ls: "loop_set U r w" and abs: "C \<notin> set (set_values (set_store w r))"
    and x: "x \<noteq> AddConnection U C"
  shows "C \<notin> set (set_values (set_store (call x w) r))"
proof (cases x)
  case (AddConnection u c)
  from ls have lt: "r < allocated w" and own: "\<And>u. userConnections w u = Some r \<Longrightarrow> u = U"
    by (simp_all add: loop_set_def)
  show ?thesis
  proof (cases "userConnections w u")
    case None
    with lt abs show ?thesis by (simp add: AddConnection addConnection_def Let_def)
  next
    case (Some r')
    show ?thesis
    proof (cases "r' = r")
      case True
      with Some own have "u = U" by simp
      with x AddConnection have "c \<noteq> C" by simp
      with Some True abs show ?thesis
        by (simp add: AddConnection addConnection_def Let_def set_values_add)
    next
      case False
      with Some abs show ?thesis by (simp add: AddConnection addConnection_def Let_def)
    qed
  qed
next
  case (RemoveConnection u c)
  show ?thesis
  proof (cases "userConnections w u")
    case None
    with abs show ?thesis by (simp add: RemoveConnection removeConnection_def)
  next
    case (Some r')
    with abs show ?thesis
      by (cases "r' = r") (simp_all add: RemoveConnection removeConnection_def Let_def set_values_delete)
  qed
qed

lemma calls_keep_absent:
  "loop_set U r w \<Longrightarrow> C \<notin> set (set_values (set_store w r)) \<Longrightarrow> AddConnection U C \<notin> set ds \<Longrightarrow>
   C \<notin> set (set_values (set_store (calls ds w) r))"
proof (induction ds arbitrary: w)
  case Nil
  then show ?case by simp
next
  case (Cons x ds)
  have "loop_set U r (call x w)" using Cons.prems(1) by (rule loop_set_call)
  moreover have "C \<notin> set (set_values (set_store (call x w) r))"
    using Cons.prems by (intro call_keeps_absent) auto
  ultimately show ?case using Cons by simp
qed

lemma socket_emit_store: "set_store (socket_emit T c s ev p w) = set_store (calls (T s) w)"
  using socket_emit_registry_of[of T c s ev p w] by (simp add: registry_of_def)

lemma loop_set_sent: "loop_set U r (w\<lparr> sent := x \<rparr>) = loop_set U r w"
  by (simp add: loop_set_def registry_ok_def)

lemma loop_set_socket_emit: "loop_set U r w \<Longrightarrow> loop_set U r (socket_emit T c s ev p w)"
  unfolding socket_emit_def by (rule loop_set_calls) (simp add: loop_set_sent)

lemma set_values_nth:
  "i < length d \<Longrightarrow> d ! i = Some c \<Longrightarrow> c \<in> set (set_values d)"
  by (metis nth_mem set_values_mem)

lemma emit_loop_never_writes:
  assumes T: "\<forall>sock. AddConnection U C \<notin> set (T sock)"
  shows "loop_set U r w \<Longrightarrow> C \<notin> set (set_values (set_store w r)) \<Longrightarrow>
         C \<notin> set (delivered w (state_of (emit_loop n T H ev p f skip r i w)))"
proof (induction n arbitrary: i w)
  case 0
  then show ?case by (simp add: emit_loop.simps delivered_def)
next
  case (Suc n)
  show ?case
  proof (cases "i < length (set_store w r)")
    case False
    then show ?thesis by (simp add: emit_loop_done delivered_def)
  next
    case lt: True
    show ?thesis
    proof (cases "set_store w r ! i")
      case None
      with lt Suc show ?thesis by (simp add: emit_loop_empty_entry)
    next
      case (Some c)
      show ?thesis
      proof (cases "skip = Some c \<or> \<not> shouldSendToConnection (H c) f")
        case True
        have "emit_loop (Suc n) T H ev p f skip r i w = emit_loop n T H ev p f skip r (Suc i) w"
          using lt Some True by (rule emit_loop_rejected)
        with Suc show ?thesis by simp
      next
        case False
        let ?w = "socket_emit T c (socket (H c)) ev p w"
        have step: "emit_loop (Suc n) T H ev p f skip r i w = emit_loop n T H ev p f skip r (Suc i) ?w"
          using lt Some False by (simp add: emit_loop_accepted)
        have ne: "c \<noteq> C" using set_values_nth[OF lt Some] Suc.prems(2) by auto
        have ls: "loop_set U r ?w" using Suc.prems(1) by (rule loop_set_socket_emit)
        have "C \<notin> set (set_values (set_store (calls (T (socket (H c))) w) r))"
          using Suc.prems T by (intro calls_keep_absent) auto
        then have ab: "C \<notin> set (set_values (set_store ?w r))" by (simp add: socket_emit_store)
        obtain cs where cs: "sent (state_of (emit_loop n T H ev p f skip r (Suc i) ?w)) =
            sent ?w @ map (\<lambda>c. (c, socket (H c), ev, p)) cs"
          using emit_loop_trace by blast
        then have d1: "delivered ?w (state_of (emit_loop n T H ev p f skip r (Suc i) ?w)) = cs"
          by (rule delivered_map)
        from cs have "sent (state_of (emit_loop n T H ev p f skip r (Suc i) ?w)) =
            sent w @ map (\<lambda>c. (c, socket (H c), ev, p)) (c # cs)"
          by (simp add: socket_emit_sent)
        then have "delivered w (state_of (emit_loop n T H ev p f skip r (Suc i) ?w)) = c # cs"
          by (rule delivered_map)
        with Suc.IH[OF ls ab, of "Suc i"] d1 ne step show ?thesis by simp
      qed
    qed
  qed
qed

lemma emit_never_writes:
  assumes "registry_ok w" and "not_registered U C w" and "\<forall>sock. AddConnection U C \<notin> set (T sock)"
  shows "C \<notin> set (delivered w (state_of (emit n T H U ev p f skip w)))"
proof (cases "userConnections w U")
  case None
  then show ?thesis by (simp add: emit_absent delivered_def)
next
  case (Some r)
  have "loop_set U r w" using assms(1) Some by (rule loop_set_start)
  moreover have "C \<notin> set (set_values (set_store w r))"
    using assms(2) Some by (simp add: not_registered_def)
  ultimately show ?thesis using Some assms(3) by (simp add: emit_def emit_loop_never_writes)
qed

lemma set_delete_length: "length (set_delete c d) = length d"
  by (simp add: set_delete_def)

lemma dropped_length: "length (dropped U ds d) = length d"
  by (induction U ds d rule: dropped.induct) (simp_all add: set_delete_length)

lemma set_delete_drop: "drop i (set_delete c d) = set_delete c (drop i d)"
  by (simp add: set_delete_def drop_map)

lemma dropped_drop: "drop i (dropped U ds d) = dropped U ds (drop i d)"
  by (induction U ds d rule: dropped.induct) (simp_all add: set_delete_drop)

lemma dropped_values:
  "set_values (dropped U ds d) = filter (\<lambda>x. RemoveConnection U x \<notin> set ds) (set_values d)"
proof (induction U ds d rule: dropped.induct)
  case (1 U d)
  then show ?case by simp
next
  case (2 U u c ds d)
  then show ?case by (auto simp: set_values_delete removeAll_filter_not_eq intro: filter_cong)
next
  case (3 U u c ds d)
  then show ?case by simp
qed

lemma set_delete_empty: "set_values d = [] \<Longrightarrow> set_delete c d = d"
  by (induction d rule: set_values.induct) (simp_all add: set_delete_def)

lemma call_on_loop_set:
  assumes ll: "loop_live U r w" and x: "\<forall>c. x \<noteq> AddConnection U c"
  shows "loop_live U r (call x w) \<and> set_store (call x w) r = dropped U [x] (set_store w r)"
proof -
  from ll have ls: "loop_set U r w" and live: "userConnections w U = Some r \<or> set_values (set_store w r) = []"
    by (simp_all add: loop_live_def)
  from ls have lt: "r < allocated w" and own: "\<And>u. userConnections w u = Some r \<Longrightarrow> u = U"
    by (simp_all add: loop_set_def)
  have ls': "loop_set U r (call x w)" using ls by (rule loop_set_call)
  show ?thesis
  proof (cases x)
    case (AddConnection u c)
    with x have ne: "u \<noteq> U" by auto
    show ?thesis
    proof (cases "userConnections w u")
      case None
      with lt live ne ls' show ?thesis
        by (auto simp: loop_live_def AddConnection addConnection_def Let_def)
    next
      case (Some r')
      with own ne have "r' \<noteq> r" by auto
      with Some live ne ls' show ?thesis
        by (auto simp: loop_live_def AddConnection addConnection_def Let_def)
    qed
  next
    case (RemoveConnection u c)
    show ?thesis
    proof (cases "userConnections w u")
      case None
      have "set_store w r = set_delete c (set_store w r)" if "u = U"
        using that None live by (simp add: set_delete_empty)
      with None live ls' show ?thesis
        by (auto simp: loop_live_def RemoveConnection removeConnection_def)
    next
      case (Some r')
      show ?thesis
      proof (cases "r' = r")
        case True
        with Some own have u: "u = U" by simp
        with Some True ls' show ?thesis
          by (auto simp: loop_live_def RemoveConnection removeConnection_def Let_def set_size_def)
      next
        case False
        have "set_store w r = set_delete c (set_store w r)" if "u = U"
          using that Some False live by (simp add: set_delete_empty)
        with Some False live ls' show ?thesis
          by (auto simp: loop_live_def RemoveConnection removeConnection_def Let_def)
      qed
    qed
  qed
qed

lemma dropped_append: "dropped U (ds @ ds') d = dropped U ds' (dropped U ds d)"
  by (induction U ds d rule: dropped.induct) simp_all

lemma calls_on_loop_set:
  "loop_live U r w \<Longrightarrow> \<forall>c. AddConnection U c \<notin> set ds \<Longrightarrow>
   loop_live U r (calls ds w) \<and> set_store (calls ds w) r = dropped U ds (set_store w r)"
proof (induction ds arbitrary: w)
  case Nil
  then show ?case by simp
next
  case (Cons x ds)
  have x: "\<forall>c. x \<noteq> AddConnection U c" using Cons.prems(2) by auto
  have 1: "loop_live U r (call x w)" "set_store (call x w) r = dropped U [x] (set_store w r)"
    using call_on_loop_set[OF Cons.prems(1) x] by simp_all
  have 2: "\<forall>c. AddConnection U c \<notin> set ds" using Cons.prems(2) by auto
  from Cons.IH[OF 1(1) 2] 1(2) show ?case
    using dropped_append[of U "[x]" ds "set_store w r"] by simp
qed

lemma loop_live_sent: "loop_live U r (w\<lparr> sent := x \<rparr>) = loop_live U r w"
  by (simp add: loop_live_def loop_set_sent)

lemma socket_emit_on_loop_set:
  assumes "loop_live U r w" and "adds_none U T"
  shows "loop_live U r (socket_emit T c s ev p w)"
    and "set_store (socket_emit T c s ev p w) r = dropped U (T s) (set_store w r)"
proof -
  have a: "loop_live U r (w\<lparr> sent := sent w @ [(c, s, ev, p)] \<rparr>)"
    using assms(1) by (simp add: loop_live_sent)
  have b: "\<forall>c. AddConnection U c \<notin> set (T s)" using assms(2) by (simp add: adds_none_def)
  from calls_on_loop_set[OF a b]
  show "loop_live U r (socket_emit T c s ev p w)"
    and "set_store (socket_emit T c s ev p w) r = dropped U (T s) (set_store w r)"
    by (simp_all add: socket_emit_def)
qed

lemma emit_loop_survivors:
  assumes T: "adds_none U T"
  shows "loop_live U r w \<Longrightarrow> length (set_store w r) - i \<le> n \<Longrightarrow>
     returned (emit_loop n T H ev p f skip r i w)
     \<and> sent (state_of (emit_loop n T H ev p f skip r i w)) =
         sent w @ map (\<lambda>c. (c, socket (H c), ev, p))
           (survivors T H U f skip (set_values (drop i (set_store w r))))"
proof (induction n arbitrary: i w)
  case 0
  then show ?case by (simp add: emit_loop.simps)
next
  case (Suc n)
  show ?case
  proof (cases "i < length (set_store w r)")
    case False
    then show ?thesis by (simp add: emit_loop_done)
  next
    case lt: True
    then have dr: "drop i (set_store w r) = set_store w r ! i # drop (Suc i) (set_store w r)"
      by (simp add: Cons_nth_drop_Suc)
    have n: "length (set_store w r) - Suc i \<le> n" using Suc.prems(2) by simp
    show ?thesis
    proof (cases "set_store w r ! i")
      case None
      with lt dr Suc.IH[OF Suc.prems(1) n] show ?thesis by (simp add: emit_loop_empty_entry)
    next
      case (Some c)
      show ?thesis
      proof (cases "skip = Some c \<or> \<not> shouldSendToConnection (H c) f")
        case True
        have "emit_loop (Suc n) T H ev p f skip r i w = emit_loop n T H ev p f skip r (Suc i) w"
          using lt Some True by (rule emit_loop_rejected)
        with dr Some True Suc.IH[OF Suc.prems(1) n] show ?thesis by auto
      next
        case False
        let ?w = "socket_emit T c (socket (H c)) ev p w"
        have step: "emit_loop (Suc n) T H ev p f skip r i w = emit_loop n T H ev p f skip r (Suc i) ?w"
          using lt Some False by (simp add: emit_loop_accepted)
        have ll: "loop_live U r ?w"
          and st: "set_store ?w r = dropped U (T (socket (H c))) (set_store w r)"
          using socket_emit_on_loop_set[OF Suc.prems(1) T] by simp_all
        have n': "length (set_store ?w r) - Suc i \<le> n" using n by (simp add: st dropped_length)
        have "set_values (drop (Suc i) (set_store ?w r)) =
            filter (\<lambda>x. RemoveConnection U x \<notin> set (T (socket (H c))))
              (set_values (drop (Suc i) (set_store w r)))"
          by (simp add: st dropped_drop dropped_values)
        with Suc.IH[OF ll n'] step dr Some False show ?thesis
          by (simp add: socket_emit_sent)
      qed
    qed
  qed
qed

lemma survivors_undisturbed:
  assumes "undisturbed U T"
  shows "survivors T H U f skip cs =
           filter (\<lambda>c. skip \<noteq> Some c \<and> shouldSendToConnection (H c) f) cs"
proof (induction cs)
  case Nil
  then show ?case by simp
next
  case (Cons c cs)
  have "RemoveConnection U x \<notin> set (T s)" for x s
    using assms by (force simp: undisturbed_def)
  with Cons show ?case by simp
qed

lemma undisturbed_adds_none: "undisturbed U T \<Longrightarrow> adds_none U T"
  by (force simp: undisturbed_def adds_none_def)

lemma survivors_subset: "set (survivors T H U f skip cs) \<subseteq> set cs"
  by (induction T H U f skip cs rule: survivors.induct) auto

lemma survivors_skip_removed:
  "survivors T H U f skip cs = ys @ c # zs \<Longrightarrow>
   RemoveConnection U x \<in> set (T (socket (H c))) \<Longrightarrow> x \<notin> set zs"
proof (induction T H U f skip cs arbitrary: ys rule: survivors.induct)
  case (1 T H U f skip)
  then show ?case by simp
next
  case (2 T H U f skip c' cs)
  show ?case
  proof (cases "skip = Some c' \<or> \<not> shouldSendToConnection (H c') f")
    case True
    with 2 show ?thesis by simp
  next
    case False
    let ?rest = "filter (\<lambda>x. RemoveConnection U x \<notin> set (T (socket (H c')))) cs"
    from False "2.prems"(1) have eq: "c' # survivors T H U f skip ?rest = ys @ c # zs" by simp
    show ?thesis
    proof (cases ys)
      case Nil
      with eq have "c = c'" "zs = survivors T H U f skip ?rest" by auto
      with survivors_subset[of T H U f skip ?rest] "2.prems"(2) show ?thesis by auto
    next
      case (Cons y ys')
      with eq have "survivors T H U f skip ?rest = ys' @ c # zs" by auto
      with "2.IH"(2) False "2.prems"(2) show ?thesis by blast
    qed
  qed
qed

lemma emit_snapshot_loop_sent:
  "sent (emit_snapshot_loop T H ev p f skip cs w) =
     sent w @ map (\<lambda>c. (c, socket (H c), ev, p))
       (filter (\<lambda>c. skip \<noteq> Some c \<and> shouldSendToConnection (H c) f) cs)"
  by (induction cs arbitrary: w) (auto simp: socket_emit_sent)

lemma example_world_registry:
  "userConnections example_world ''U'' = Some 0"
  "set_store example_world 0 = [Some 0, Some 1, Some 2]"
  "sent example_world = []"
  by (simp_all add: example_world_def new_router_def addConnection_def set_add_def Let_def)

lemma example_world_ok: "registry_ok example_world"
  unfolding example_world_def by (intro registry_ok_calls registry_ok_new)


lemmas example_eval =
  delivered_def deliveries_to_def emitUpdate_def emitEphemeral_def default_filter_def emit_def
  emit_snapshot_def example_world_registry emit_loop.simps socket_emit_def
  example_transport_def connecting_transport_def bystander_transport_def example_heap_def
  addConnection_def removeConnection_def set_add_def set_delete_def set_size_def Let_def
  eval_nat_numeral

lemma emit_visits_added_connection:
  "returned (emitUpdate 4 connecting_transport example_heap ''U'' example_update None None example_world)
   \<and> delivered example_world
     (state_of (emitUpdate 4 connecting_transport example_heap ''U'' example_update None None
        example_world)) = [0, 1, 2, 3]
   \<and> \<not> returned (emitUpdate 3 connecting_transport example_heap ''U'' example_update None None example_world)"
  by (simp add: example_eval)

lemma emit_survivors:
  assumes "registry_ok w" and "userConnections w U = Some r" and "adds_none U T"
    and "entries U w \<le> n"
  shows "returned (emit n T H U ev p f skip w)"
    and "sent (state_of (emit n T H U ev p f skip w)) =
         sent w @ map (\<lambda>c. (c, socket (H c), ev, p))
           (survivors T H U f skip (set_values (set_store w r)))"
proof -
  have "loop_live U r w"
    using assms(1,2) by (simp add: loop_live_def loop_set_start)
  moreover have "length (set_store w r) - 0 \<le> n" using assms(2,4) by (simp add: entries_def)
  ultimately have "returned (emit_loop n T H ev p f skip r 0 w)
     \<and> sent (state_of (emit_loop n T H ev p f skip r 0 w)) =
         sent w @ map (\<lambda>c. (c, socket (H c), ev, p))
           (survivors T H U f skip (set_values (drop 0 (set_store w r))))"
    using assms(3) by (intro emit_loop_survivors)
  then show "returned (emit n T H U ev p f skip w)"
    and "sent (state_of (emit n T H U ev p f skip w)) =
         sent w @ map (\<lambda>c. (c, socket (H c), ev, p))
           (survivors T H U f skip (set_values (set_store w r)))"
    using assms(2) by (simp_all add: emit_def)
qed

lemma emit_undisturbed:
  assumes "registry_ok w" and "userConnections w U = Some r" and "undisturbed U T"
    and "entries U w \<le> n"
  shows "returned (emit n T H U ev p f skip w)"
    and "sent (state_of (emit n T H U ev p f skip w)) =
         sent w @ map (\<lambda>c. (c, socket (H c), ev, p))
           (filter (\<lambda>c. skip \<noteq> Some c \<and> shouldSendToConnection (H c) f)
              (set_values (set_store w r)))"
  using emit_survivors[OF assms(1,2) undisturbed_adds_none[OF assms(3)] assms(4)]
  by (simp_all add: survivors_undisturbed[OF assms(3)])

lemma bystander_undisturbed: "undisturbed ''U'' bystander_transport"
  by (simp add: undisturbed_def bystander_transport_def)

lemma example_transport_adds_none: "adds_none ''U'' example_transport"
  by (simp add: adds_none_def example_transport_def)

lemma registry_ok_cong: "registry_of w = registry_of w' \<Longrightarrow> registry_ok w = registry_ok w'"
  by (simp add: registry_of_def registry_ok_def)

lemma sets_distinct_cong: "registry_of w = registry_of w' \<Longrightarrow> sets_distinct w = sets_distinct w'"
  by (simp add: registry_of_def sets_distinct_def)

lemma emit_registry_ok:
  assumes "registry_ok w"
  shows "registry_ok (state_of (emit n T H U ev p f skip w))"
proof -
  have "registry_ok (calls (concat (map (\<lambda>c. T (socket (H c)))
        (delivered w (state_of (emit n T H U ev p f skip w))))) w)"
    using assms by (rule registry_ok_calls)
  then show ?thesis using registry_ok_cong[OF emit_registry] by simp
qed

lemma emit_sets_distinct:
  assumes "sets_distinct w"
  shows "sets_distinct (state_of (emit n T H U ev p f skip w))"
proof -
  have "sets_distinct (calls (concat (map (\<lambda>c. T (socket (H c)))
        (delivered w (state_of (emit n T H U ev p f skip w))))) w)"
    using assms by (rule sets_distinct_calls)
  then show ?thesis using sets_distinct_cong[OF emit_registry] by simp
qed

lemma emit_loop_unrecognized:
  "sent (state_of (emit_loop n T H ev p (UnrecognizedFilter ty) skip r i w)) = sent w"
proof (induction n arbitrary: i)
  case 0
  then show ?case by (simp add: emit_loop.simps)
next
  case (Suc n)
  show ?case
  proof (cases "i < length (set_store w r)")
    case False
    then show ?thesis by (simp add: emit_loop_done)
  next
    case lt: True
    show ?thesis
    proof (cases "set_store w r ! i")
      case None
      with lt Suc show ?thesis by (simp add: emit_loop_empty_entry)
    next
      case (Some c)
      have "emit_loop (Suc n) T H ev p (UnrecognizedFilter ty) skip r i w =
          emit_loop n T H ev p (UnrecognizedFilter ty) skip r (Suc i) w"
        using lt Some by (intro emit_loop_rejected) simp_all
      with Suc show ?thesis by simp
    qed
  qed
qed

lemma unrecognized_filter_delivers_nothing:
  "delivered w (state_of (emit n T H U ev p (UnrecognizedFilter ty) skip w)) = []"
  by (cases "userConnections w U")
     (simp_all add: delivered_def emit_absent emit_def emit_loop_unrecognized)

lemma scenario_session_filter:
  "delivered example_world
     (state_of (emitUpdate 3 quiet example_heap ''U'' example_update
        (Some (AllInterestedInSession ''s1'')) None example_world)) = [0, 2]"
  by (simp add: example_eval quiet_def)

section \<open>Default emission\<close>

text \<open>
  C2, as stated: \<open>emitUpdate\<close> for \<open>U\<close> with no explicit filter writes the payload to
  every registered connection of \<open>U\<close> exactly once, but for \<open>skipSenderConnection\<close>.
  This fails when a write of the loop removes a connection of \<open>U\<close> that the loop has
  not reached: in the concrete registry, the write to connection \<open>0\<close> removes
  connection \<open>1\<close>, which is registered and not skipped and is written to no time.
\<close>

theorem emitUpdate_default_counterexample:
  "getConnections ''U'' example_world = Some 0
   \<and> 1 \<in> set (set_values (set_store example_world 0))
   \<and> returned (emitUpdate 3 example_transport example_heap ''U'' example_update None None example_world)
   \<and> deliveries_to 1 example_world
       (state_of (emitUpdate 3 example_transport example_heap ''U'' example_update None None
          example_world)) = 0"
  by (simp add: getConnections_def example_eval)

text \<open>
  C2, amended: when the writes of the loop call back into the router at most with
  \<open>addConnection\<close> and \<open>removeConnection\<close> for users other than \<open>U\<close>,
  \<open>emitUpdate\<close> for \<open>U\<close> with payload \<open>P\<close> and no explicit filter returns and has
  written \<open>P\<close> under the tag \<open>update\<close> to the socket
  of every connection registered under \<open>U\<close>, in insertion order, except the one that
  is \<open>skipSenderConnection\<close>: every registered connection other than that one is
  written to exactly once, that one and every other connection not at all.
\<close>

theorem emitUpdate_default_reaches_all:
  assumes "registry_ok w" and "getConnections U w = Some r"
    and "distinct (set_values (set_store w r))"
    and "undisturbed U T" and "entries U w \<le> n"
  shows "returned (emitUpdate n T H U P None skip w)
       \<and> sent (state_of (emitUpdate n T H U P None skip w)) =
           sent w @ map (\<lambda>c. (c, socket (H c), ''update'', UpdateP P))
             (filter (\<lambda>c. skip \<noteq> Some c) (set_values (set_store w r)))
       \<and> (\<forall>c. deliveries_to c w (state_of (emitUpdate n T H U P None skip w)) =
               (if c \<in> set (set_values (set_store w r)) \<and> skip \<noteq> Some c then 1 else 0))"
proof -
  from assms(2) have r: "userConnections w U = Some r" by (simp add: getConnections_def)
  note e = emit_undisturbed[OF assms(1) r assms(4,5)]
  have s: "sent (state_of (emitUpdate n T H U P None skip w)) =
           sent w @ map (\<lambda>c. (c, socket (H c), ''update'', UpdateP P))
             (filter (\<lambda>c. skip \<noteq> Some c) (set_values (set_store w r)))"
    by (simp add: emitUpdate_def default_filter_def e(2))
  have "deliveries_to c w (state_of (emitUpdate n T H U P None skip w)) =
          (if c \<in> set (set_values (set_store w r)) \<and> skip \<noteq> Some c then 1 else 0)" for c
    unfolding deliveries_to_def delivered_def s
    using count_distinct[OF assms(3), of c "\<lambda>c. skip \<noteq> Some c"]
    by (simp add: comp_def)
  moreover have "returned (emitUpdate n T H U P None skip w)"
    by (simp add: emitUpdate_def e(1))
  ultimately show ?thesis using s by blast
qed

theorem emitUpdate_default_reaches_all_witness:
  "registry_ok example_world
   \<and> getConnections ''U'' example_world = Some 0
   \<and> distinct (set_values (set_store example_world 0))
   \<and> undisturbed ''U'' bystander_transport
   \<and> entries ''U'' example_world \<le> 3
   \<and> returned (emitUpdate 3 bystander_transport example_heap ''U'' example_update None (Some 1) example_world)
   \<and> sent (state_of (emitUpdate 3 bystander_transport example_heap ''U'' example_update None (Some 1)
        example_world)) =
       [(0, 10, ''update'', UpdateP example_update), (2, 12, ''update'', UpdateP example_update)]
   \<and> deliveries_to 0 example_world
         (state_of (emitUpdate 3 bystander_transport example_heap ''U'' example_update None (Some 1)
            example_world)) = 1
   \<and> deliveries_to 1 example_world
         (state_of (emitUpdate 3 bystander_transport example_heap ''U'' example_update None (Some 1)
            example_world)) = 0"
proof -
  have h2: "getConnections ''U'' example_world = Some 0"
    by (simp add: getConnections_def example_world_registry)
  have h3: "distinct (set_values (set_store example_world 0))"
    by (simp add: example_world_registry)
  have h5: "entries ''U'' example_world \<le> 3"
    by (simp add: entries_def example_world_registry)
  from emitUpdate_default_reaches_all[OF example_world_ok h2 h3 bystander_undisturbed h5,
      of example_heap example_update "Some 1"]
  show ?thesis using example_world_ok h2 h3 h5 bystander_undisturbed
    by (simp add: example_world_registry example_heap_def)
qed

section \<open>Emission while connections are removed\<close>

text \<open>
  C3, as stated: the connections considered by an emission are a snapshot of the set
  taken when the emission begins, so that a \<open>removeConnection\<close> during the loop does
  not change which connections are visited. This fails: the loop iterates the set
  itself. In the concrete registry, the write to connection \<open>0\<close> removes connection
  \<open>1\<close>, which the loop then does not visit, while a loop over a snapshot visits it.
\<close>

theorem emit_snapshot_counterexample:
  "returned (emitUpdate 3 example_transport example_heap ''U'' example_update None None example_world)
   \<and> delivered example_world
     (state_of (emitUpdate 3 example_transport example_heap ''U'' example_update None None
        example_world)) = [0, 2]
   \<and> delivered example_world
     (emit_snapshot example_transport example_heap ''U'' ''update'' (UpdateP example_update)
        AllUserAuthenticatedConnections None example_world) = [0, 1, 2]"
  by (simp add: example_eval)

text \<open>
  C3, amended: the loop iterates the live set of the user, not a snapshot, and a
  \<open>removeConnection\<close> performed during the loop does change the iteration. When the
  writes of the loop call back into the router at most with \<open>removeConnection\<close> and
  with \<open>addConnection\<close> for other users, the emission returns, and it has written, in
  insertion order, to exactly those connections registered at its beginning that are
  eligible (not the skipped sender, accepted by the filter) and had not been removed by
  an earlier write of the same loop; a connection that a write removes is not written to
  after that write. When the writes make no call for the user at all, the writes are
  those of a loop over a snapshot taken at the beginning.
\<close>

theorem emit_iterates_live_set:
  assumes "registry_ok w" and "getConnections U w = Some r" and "adds_none U T"
    and "entries U w \<le> n"
  shows "returned (emit n T H U ev p f skip w)
       \<and> sent (state_of (emit n T H U ev p f skip w)) =
           sent w @ map (\<lambda>c. (c, socket (H c), ev, p))
             (survivors T H U f skip (set_values (set_store w r)))
       \<and> (delivered w (state_of (emit n T H U ev p f skip w)) = ys @ c # zs
            \<and> RemoveConnection U x \<in> set (T (socket (H c))) \<longrightarrow> x \<notin> set zs)
       \<and> (undisturbed U T \<longrightarrow>
            sent (state_of (emit n T H U ev p f skip w)) = sent (emit_snapshot T H U ev p f skip w))"
proof -
  from assms(2) have r: "userConnections w U = Some r" by (simp add: getConnections_def)
  note e = emit_survivors[OF assms(1) r assms(3,4)]
  have d: "delivered w (state_of (emit n T H U ev p f skip w)) =
      survivors T H U f skip (set_values (set_store w r))"
    using e(2) by (rule delivered_map)
  have "x \<notin> set zs" if "delivered w (state_of (emit n T H U ev p f skip w)) = ys @ c # zs"
    and "RemoveConnection U x \<in> set (T (socket (H c)))"
    using that survivors_skip_removed[of T H U f skip "set_values (set_store w r)" ys c zs x]
    by (simp add: d)
  moreover have "sent (state_of (emit n T H U ev p f skip w)) = sent (emit_snapshot T H U ev p f skip w)"
    if "undisturbed U T"
    using e(2) r by (simp add: survivors_undisturbed[OF that] emit_snapshot_def emit_snapshot_loop_sent)
  ultimately show ?thesis using e by blast
qed

theorem emit_iterates_live_set_witness:
  "registry_ok example_world
   \<and> getConnections ''U'' example_world = Some 0
   \<and> adds_none ''U'' example_transport
   \<and> entries ''U'' example_world \<le> 3
   \<and> delivered example_world (state_of (emit 3 example_transport example_heap ''U'' ''ephemeral''
        (EphemeralP []) AllUserAuthenticatedConnections None example_world)) = [] @ 0 # [2]
   \<and> RemoveConnection ''U'' 1 \<in> set (example_transport (socket (example_heap 0)))
   \<and> returned (emit 3 example_transport example_heap ''U'' ''ephemeral''
        (EphemeralP []) AllUserAuthenticatedConnections None example_world)
   \<and> 1 \<notin> set [2::nat]"
proof -
  have h2: "getConnections ''U'' example_world = Some 0"
    by (simp add: getConnections_def example_world_registry)
  have h4: "entries ''U'' example_world \<le> 3"
    by (simp add: entries_def example_world_registry)
  have d: "delivered example_world (state_of (emit 3 example_transport example_heap ''U'' ''ephemeral''
        (EphemeralP []) AllUserAuthenticatedConnections None example_world)) = [] @ 0 # [2]"
    by (simp add: example_eval)
  have rm: "RemoveConnection ''U'' 1 \<in> set (example_transport (socket (example_heap 0)))"
    by (simp add: example_transport_def example_heap_def)
  note t = emit_iterates_live_set[OF example_world_ok h2 example_transport_adds_none h4,
      of example_heap "''ephemeral''" "EphemeralP []" AllUserAuthenticatedConnections None "[]" 0 "[2]" 1]
  from t have "returned (emit 3 example_transport example_heap ''U'' ''ephemeral''
        (EphemeralP []) AllUserAuthenticatedConnections None example_world)" by (rule conjunct1)
  moreover from t d rm have "1 \<notin> set [2::nat]" by blast
  ultimately show ?thesis using example_world_ok h2 example_transport_adds_none h4 d rm by blast
qed

section \<open>Removal\<close>

text \<open>
  C4. After \<open>removeConnection(U, C)\<close>, and after any further registry calls that do
  not add \<open>C\<close> under \<open>U\<close> again, an emission to \<open>U\<close> (update or ephemeral, any
  filter, any transport whose writes do not themselves add \<open>C\<close> under \<open>U\<close> again)
  does not write to \<open>C\<close>, however far its loop has run; and if \<open>C\<close> was the only
  connection of \<open>U\<close>, \<open>getConnections(U)\<close> is absent after the removal.
\<close>

theorem removeConnection_stops_delivery:
  assumes "registry_ok w" and "AddConnection U C \<notin> set cs"
    and "\<forall>sock. AddConnection U C \<notin> set (T sock)"
  shows "C \<notin> set (delivered (calls cs (removeConnection U C w))
                  (state_of (emitUpdate n T H U P fo skip (calls cs (removeConnection U C w)))))
       \<and> C \<notin> set (delivered (calls cs (removeConnection U C w))
                  (state_of (emitEphemeral n T H U E fo skip (calls cs (removeConnection U C w)))))
       \<and> (getConnections U w = Some r \<and> set_values (set_store w r) = [C]
            \<longrightarrow> getConnections U (removeConnection U C w) = None)"
proof -
  have ok: "registry_ok (removeConnection U C w)" using assms(1) by (rule registry_ok_remove)
  then have "not_registered U C (calls cs (removeConnection U C w))"
    using not_registered_remove assms(2) by (rule not_registered_calls)
  moreover have "registry_ok (calls cs (removeConnection U C w))"
    using ok by (rule registry_ok_calls)
  ultimately show ?thesis
    using assms(3)
    by (simp add: emitUpdate_def emitEphemeral_def emit_never_writes getConnections_def
        removeConnection_last)
qed

theorem removeConnection_stops_delivery_witness:
  "registry_ok example_world
   \<and> AddConnection ''U'' 2 \<notin> set [AddConnection ''V'' 2, RemoveConnection ''U'' 1]
   \<and> (\<forall>sock. AddConnection ''U'' 2 \<notin> set (connecting_transport sock))
   \<and> 2 \<notin> set (delivered
        (calls [AddConnection ''V'' 2, RemoveConnection ''U'' 1] (removeConnection ''U'' 2 example_world))
        (state_of (emitUpdate 4 connecting_transport example_heap ''U'' example_update None None
          (calls [AddConnection ''V'' 2, RemoveConnection ''U'' 1] (removeConnection ''U'' 2 example_world)))))
   \<and> delivered
        (calls [AddConnection ''V'' 2, RemoveConnection ''U'' 1] (removeConnection ''U'' 2 example_world))
        (state_of (emitUpdate 4 connecting_transport example_heap ''U'' example_update None None
          (calls [AddConnection ''V'' 2, RemoveConnection ''U'' 1] (removeConnection ''U'' 2 example_world))))
      = [0, 3]"
proof -
  have h2: "AddConnection ''U'' 2 \<notin> set [AddConnection ''V'' 2, RemoveConnection ''U'' 1]"
    by simp
  have h3: "\<forall>sock. AddConnection ''U'' 2 \<notin> set (connecting_transport sock)"
    by (simp add: connecting_transport_def)
  have d: "delivered
        (calls [AddConnection ''V'' 2, RemoveConnection ''U'' 1] (removeConnection ''U'' 2 example_world))
        (state_of (emitUpdate 4 connecting_transport example_heap ''U'' example_update None None
          (calls [AddConnection ''V'' 2, RemoveConnection ''U'' 1] (removeConnection ''U'' 2 example_world))))
      = [0, 3]"
    by (simp add: example_world_def new_router_def example_eval)
  from removeConnection_stops_delivery[OF example_world_ok h2 h3, of 4 example_heap example_update None None]
  show ?thesis using example_world_ok h2 h3 d by simp
qed

text \<open>
  C5. After any sequence of \<open>addConnection\<close> and \<open>removeConnection\<close> calls on a new
  router, every key of the map has a set that is not empty; and removing the only
  connection of a key removes the key.
\<close>

theorem registry_keys_have_connections:
  assumes "getConnections uid (calls cs new_router) = Some r"
  shows "0 < set_size (set_store (calls cs new_router) r)
       \<and> (set_values (set_store (calls cs new_router) r) = [c]
            \<longrightarrow> getConnections uid (removeConnection uid c (calls cs new_router)) = None)"
proof -
  have "registry_ok (calls cs new_router)" by (intro registry_ok_calls registry_ok_new)
  with assms show ?thesis
    by (simp add: registry_ok_def getConnections_def removeConnection_last)
qed

theorem registry_keys_have_connections_witness:
  "getConnections ''U'' (calls [AddConnection ''U'' 4, AddConnection ''V'' 5, RemoveConnection ''V'' 5] new_router) = Some 0
   \<and> set_values (set_store (calls [AddConnection ''U'' 4, AddConnection ''V'' 5, RemoveConnection ''V'' 5] new_router) 0) = [4]
   \<and> 0 < set_size (set_store (calls [AddConnection ''U'' 4, AddConnection ''V'' 5, RemoveConnection ''V'' 5] new_router) 0)
   \<and> getConnections ''V'' (calls [AddConnection ''U'' 4, AddConnection ''V'' 5, RemoveConnection ''V'' 5] new_router) = None
   \<and> getConnections ''U'' (removeConnection ''U'' 4
        (calls [AddConnection ''U'' 4, AddConnection ''V'' 5, RemoveConnection ''V'' 5] new_router)) = None"
proof -
  have h: "getConnections ''U'' (calls [AddConnection ''U'' 4, AddConnection ''V'' 5, RemoveConnection ''V'' 5] new_router) = Some 0"
    by (simp add: getConnections_def new_router_def addConnection_def removeConnection_def
        set_add_def set_delete_def set_size_def Let_def)
  have v: "set_values (set_store (calls [AddConnection ''U'' 4, AddConnection ''V'' 5, RemoveConnection ''V'' 5] new_router) 0) = [4]"
    by (simp add: new_router_def addConnection_def removeConnection_def
        set_add_def set_delete_def set_size_def Let_def)
  have n: "getConnections ''V'' (calls [AddConnection ''U'' 4, AddConnection ''V'' 5, RemoveConnection ''V'' 5] new_router) = None"
    by (simp add: getConnections_def new_router_def addConnection_def removeConnection_def
        set_add_def set_delete_def set_size_def Let_def)
  from registry_keys_have_connections[OF h, of 4] show ?thesis using h v n by simp
qed

section \<open>Adding a connection twice\<close>




section \<open>Emission without recipients\<close>

text \<open>
  C7. An emission (update or ephemeral, any payload, any filter, any transport) to a
  user that has no registered connection writes to no socket; the router logs one
  warning and returns, with nothing else changed.
\<close>

theorem emit_without_connections:
  assumes "getConnections U w = None"
  shows "emitUpdate n T H U P f skip w =
           Returned (w\<lparr> logged := logged w @ [(''websocket'', ''warn'', ''No connections found for user '' @ U)] \<rparr>)
         \<and> emitEphemeral n T H U E f skip w =
           Returned (w\<lparr> logged := logged w @ [(''websocket'', ''warn'', ''No connections found for user '' @ U)] \<rparr>)
         \<and> delivered w (state_of (emitUpdate n T H U P f skip w)) = []
         \<and> delivered w (state_of (emitEphemeral n T H U E f skip w)) = []"
  using assms
  by (simp add: getConnections_def emitUpdate_def emitEphemeral_def emit_absent delivered_def)

theorem emit_without_connections_witness:
  "getConnections ''U'' new_router = None
   \<and> emitEphemeral 0 connecting_transport example_heap ''U''
         [(''type'', JStr ''usage''), (''id'', JStr ''s1''), (''key'', JStr ''k''),
          (''tokens'', JObj [(''input'', JNum 10)]), (''cost'', JObj [(''usd'', JNum 0.001)]),
          (''timestamp'', JNum 1700000000000)]
         None None new_router =
       Returned (new_router\<lparr> logged := [(''websocket'', ''warn'', ''No connections found for user U'')] \<rparr>)"
proof -
  have h: "getConnections ''U'' new_router = None"
    by (simp add: getConnections_def new_router_def)
  from emit_without_connections[OF h] show ?thesis
    using h by (simp add: new_router_def)
qed

section \<open>The builders\<close>

text \<open>
  C8, as stated: the body of the payload of \<open>buildNewMessageUpdate\<close> is the tag \<open>t\<close>
  plus exactly the fields of the \<open>new-message\<close> variant of \<open>UpdateEvent\<close>. This
  fails: the variant names the session id \<open>sessionId\<close>, the body names it \<open>sid\<close>, and
  \<open>body.sessionId\<close> is undefined.
\<close>

theorem buildNewMessageUpdate_fields_counterexample:
  "js_keys (JObj (body (buildNewMessageUpdate 1700000001000 example_message ''s1'' 7 ''upd-1'')))
     \<noteq> ''t'' # UpdateEvent_fields ''new-message''
   \<and> js_get (JObj (body (buildNewMessageUpdate 1700000001000 example_message ''s1'' 7 ''upd-1'')))
       ''sessionId'' = JUndefined"
  by (simp add: buildNewMessageUpdate_def UpdateEvent_fields_def)

text \<open>
  C8, amended: the envelope's \<open>id\<close> and \<open>seq\<close> are the supplied \<open>updateId\<close> and
  \<open>updateSeq\<close>; the body has exactly the properties \<open>t\<close> (\<open>new-message\<close>), \<open>sid\<close>
  (the supplied session id) and \<open>message\<close>; the message has exactly the fields of the
  message of the \<open>new-message\<close> variant, \<open>id\<close>, \<open>seq\<close>, \<open>content\<close> and \<open>localId\<close>
  copied and \<open>createdAt\<close> and \<open>updatedAt\<close> the integer \<open>getTime()\<close> of the dates.
\<close>

theorem buildNewMessageUpdate_payload:
  "(let P = buildNewMessageUpdate now message sid updateSeq updateId;
        B = JObj (body P);
        M = js_get B ''message''
    in p_id P = updateId
     \<and> p_seq P = updateSeq
     \<and> js_keys B = [''t'', ''sid'', ''message'']
     \<and> js_get B ''t'' = JStr ''new-message''
     \<and> js_get B ''sid'' = JStr sid
     \<and> js_keys M = UpdateEvent_message_fields
     \<and> js_get M ''id'' = JStr (m_id message)
     \<and> js_get M ''seq'' = JNum (m_seq message)
     \<and> js_get M ''content'' = m_content message
     \<and> js_get M ''localId'' = string_or_null (m_localId message)
     \<and> js_get M ''createdAt'' = JNum (of_int (getTime (m_createdAt message)))
     \<and> js_get M ''updatedAt'' = JNum (of_int (getTime (m_updatedAt message))))"
  by (simp add: buildNewMessageUpdate_def UpdateEvent_message_fields_def)

text \<open>
  C9. Two calls of \<open>buildNewSessionUpdate\<close> with the same session, \<open>updateSeq\<close> and
  \<open>updateId\<close> give payloads that agree in \<open>id\<close>, \<open>seq\<close> and \<open>body\<close>, that is in all
  but \<open>createdAt\<close>, which is the clock reading of each call.
\<close>

theorem buildNewSessionUpdate_pure:
  "p_id (buildNewSessionUpdate now1 session updateSeq updateId) =
     p_id (buildNewSessionUpdate now2 session updateSeq updateId)
   \<and> p_seq (buildNewSessionUpdate now1 session updateSeq updateId) =
     p_seq (buildNewSessionUpdate now2 session updateSeq updateId)
   \<and> body (buildNewSessionUpdate now1 session updateSeq updateId) =
     body (buildNewSessionUpdate now2 session updateSeq updateId)
   \<and> (buildNewSessionUpdate now1 session updateSeq updateId)\<lparr> p_createdAt := t \<rparr> =
     (buildNewSessionUpdate now2 session updateSeq updateId)\<lparr> p_createdAt := t \<rparr>
   \<and> p_createdAt (buildNewSessionUpdate now1 session updateSeq updateId) = of_int now1"
  by (simp add: buildNewSessionUpdate_def)

section \<open>Emission and the registry\<close>

text \<open>
  C10, as stated: a call of \<open>emitUpdate\<close> or \<open>emitEphemeral\<close> leaves the registry
  unchanged. This fails when a write of the loop calls the registry: with one
  connection of \<open>U\<close> whose disconnect handler runs during the write to it,
  \<open>getConnections(U)\<close> is a set before the emission and absent after it.
\<close>

theorem emission_registry_counterexample:
  "getConnections ''U'' (calls [AddConnection ''U'' 0] new_router) = Some 0
   \<and> returned (emitUpdate 1 leaving_transport example_heap ''U'' example_update None None
        (calls [AddConnection ''U'' 0] new_router))
   \<and> getConnections ''U''
        (state_of (emitUpdate 1 leaving_transport example_heap ''U'' example_update None None
           (calls [AddConnection ''U'' 0] new_router))) = None"
  by (simp add: getConnections_def new_router_def leaving_transport_def example_eval)

text \<open>
  C10, amended: an emission makes no change to the registry of its own. Where its writes
  call back into the router with \<open>addConnection\<close> and \<open>removeConnection\<close>, the
  registry after a call of \<open>emitUpdate\<close> or \<open>emitEphemeral\<close> (and at every point of
  its loop) is the registry before the call with exactly the calls applied that the
  writes issued so far performed, in the order of the writes. When the writes make no
  such call, \<open>getConnections(u)\<close> is the same set, with the same data, before and
  after, for every user \<open>u\<close>.
\<close>

theorem emission_leaves_registry:
  "registry_of (state_of (emitUpdate n T H U P f skip w)) =
     registry_of (calls (concat (map (\<lambda>c. T (socket (H c)))
        (delivered w (state_of (emitUpdate n T H U P f skip w))))) w)
   \<and> registry_of (state_of (emitEphemeral n T H U E f skip w)) =
     registry_of (calls (concat (map (\<lambda>c. T (socket (H c)))
        (delivered w (state_of (emitEphemeral n T H U E f skip w))))) w)
   \<and> getConnections u (state_of (emitUpdate n quiet H U P f skip w)) = getConnections u w
   \<and> set_store (state_of (emitUpdate n quiet H U P f skip w)) = set_store w
   \<and> getConnections u (state_of (emitEphemeral n quiet H U E f skip w)) = getConnections u w
   \<and> set_store (state_of (emitEphemeral n quiet H U E f skip w)) = set_store w"
proof -
  have nil: "concat (map (\<lambda>c. []) xs) = []" for xs :: "conn_ref list"
    by (induction xs) simp_all
  have q: "registry_of (state_of (emit n quiet H U ev p g skip w)) = registry_of w" for ev p g
    using emit_registry[of n quiet H U ev p g skip w] by (simp add: quiet_def nil)
  have g: "registry_of (state_of (emit n T H U ev p g skip w)) =
     registry_of (calls (concat (map (\<lambda>c. T (socket (H c)))
        (delivered w (state_of (emit n T H U ev p g skip w))))) w)" for ev p g
    by (rule emit_registry)
  have u: "userConnections (state_of (emit n quiet H U ev p g skip w)) = userConnections w
      \<and> set_store (state_of (emit n quiet H U ev p g skip w)) = set_store w" for ev p g
    using q[of ev p g] by (simp add: registry_of_def)
  show ?thesis
    unfolding emitUpdate_def emitEphemeral_def getConnections_def
    by (intro conjI g) (simp_all add: u)
qed

end
